theory Spec2Isabelle
  imports Complex_Main "HOL-Library.Word"
begin

unbundle bit_operations_syntax

section \<open>Conventions of the embedding\<close>

text \<open>
  The embedding follows \<^verbatim>\<open>FFT_Processor.cpp\<close> and \<^verbatim>\<open>BPM_Detector.cpp\<close>.

  \<^item> A C++ \<^verbatim>\<open>float\<close> is a \<^typ>\<open>real\<close> and a \<^verbatim>\<open>std::complex<float>\<close> a
    \<^typ>\<open>complex\<close>: arithmetic is exact, rounding and overflow to infinity are not
    part of the model. The one place where a non-finite value is the whole point,
    the quotient \<^verbatim>\<open>0.0 / 0.0\<close> of \<^verbatim>\<open>hanningWindow(1)\<close>, is written out.
  \<^item> A \<^verbatim>\<open>std::vector\<close> is a list; a \<^verbatim>\<open>size_t\<close> is a \<^typ>\<open>nat\<close>, and where the
    source subtracts two sizes the 64-bit wrap-around is written out.
  \<^item> \<^verbatim>\<open>throw std::invalid_argument\<close> is the value \<open>Inl InvalidArgument\<close>.
    Memory is unbounded: creating a vector never fails.
  \<^item> A \<^verbatim>\<open>while\<close> loop whose exit is not evident from its guard is a
    \<^theory_text>\<open>partial_function\<close> into \<^typ>\<open>'a option\<close>: \<open>None\<close> is "does not return".
\<close>

datatype error = InvalidArgument

section \<open>FFT\_Processor\<close>

subsection \<open>FFT: bit-reversal permutation\<close>

text \<open>
  \<^verbatim>\<open>while (j >= bit) { j -= bit; bit >>= 1; }\<close>
  With \<open>bit = 0\<close> the guard stays true for ever, so the loop is partial
  (\<open>bt\<close> is the source's \<open>bit\<close>).
\<close>

partial_function (option) bitrev_while :: "nat \<Rightarrow> nat \<Rightarrow> (nat \<times> nat) option" where
  "bitrev_while j bt =
     (if j \<ge> bt then bitrev_while (j - bt) (drop_bit 1 bt) else Some (j, bt))"

text \<open>
  \<^verbatim>\<open>for (size_t i = 1; i < N; i++) { bit = N >> 1; while ...; j += bit;
         if (i < j) std::swap(x[i], x[j]); }\<close>
\<close>

function bitrev_loop :: "nat \<Rightarrow> nat \<Rightarrow> nat \<Rightarrow> complex list \<Rightarrow> complex list option" where
  "bitrev_loop N i j x =
     (if i < N then
        (case bitrev_while j (drop_bit 1 N) of
           None \<Rightarrow> None
         | Some (j', bt) \<Rightarrow>
             (let j'' = j' + bt;
                  x' = (if i < j'' then x[i := x ! j'', j'' := x ! i] else x)
              in bitrev_loop N (i + 1) j'' x'))
      else Some x)"
  by pat_completeness auto
termination
  by (relation "measure (\<lambda>(N, i, j, x). N - i)") auto

subsection \<open>FFT: twiddle factors and butterflies\<close>

text \<open>
  \<^verbatim>\<open>angle = -2.0f * M_PI * i / N; twiddles[i] = complex(cos(angle), sin(angle));\<close>
\<close>

definition twiddle :: "nat \<Rightarrow> nat \<Rightarrow> complex" where
  "twiddle N i = (let angle = - 2 * pi * real i / real N in Complex (cos angle) (sin angle))"

definition twiddles :: "nat \<Rightarrow> complex list" where
  "twiddles N = map (twiddle N) [0..<N div 2]"

text \<open>
  The body of the innermost loop:
  \<^verbatim>\<open>temp = x[i + j + half_len] * twiddles[j * step];
  x[i + j + half_len] = x[i + j] - temp;  x[i + j] += temp;\<close>
\<close>

definition butterfly :: "complex list \<Rightarrow> nat \<Rightarrow> nat \<Rightarrow> nat \<Rightarrow> nat \<Rightarrow> complex list \<Rightarrow> complex list" where
  "butterfly tw step half_len i j x =
     (let temp = x ! (i + j + half_len) * tw ! (j * step);
          x1 = x[i + j + half_len := x ! (i + j) - temp]
      in x1[i + j := x1 ! (i + j) + temp])"

text \<open>
  \<^verbatim>\<open>for (size_t i = 0; i < N; i += len) for (size_t j = 0; j < half_len; j++) ...\<close>
  The outer loop advances by \<open>len\<close>; it only ends when \<open>len > 0\<close>.
\<close>

partial_function (option) fft_blocks :: "complex list \<Rightarrow> nat \<Rightarrow> nat \<Rightarrow> nat \<Rightarrow> complex list \<Rightarrow> complex list option" where
  "fft_blocks tw N len i x =
     (if i < N then
        fft_blocks tw N len (i + len)
          (fold (butterfly tw (N div len) (len div 2) i) [0..<len div 2] x)
      else Some x)"

text \<open>\<^verbatim>\<open>for (size_t len = 2; len <= N; len *= 2)\<close>\<close>

partial_function (option) fft_stages :: "complex list \<Rightarrow> nat \<Rightarrow> nat \<Rightarrow> complex list \<Rightarrow> complex list option" where
  "fft_stages tw N len x =
     (if len \<le> N then
        Option.bind (fft_blocks tw N len 0 x) (\<lambda>x'. fft_stages tw N (len * 2) x')
      else Some x)"

subsection \<open>FFT and IFFT\<close>

text \<open>
  \<^verbatim>\<open>if (N <= 1) return;
  if ((N & (N - 1)) != 0) throw std::invalid_argument("FFT size must be a power of 2");\<close>
  The result is \<open>None\<close> when a loop does not return, \<open>Some (Inl e)\<close> when the
  call throws and \<open>Some (Inr x')\<close> with the new contents of the vector otherwise.
\<close>

definition FFT :: "complex list \<Rightarrow> (error + complex list) option" where
  "FFT x =
     (let N = length x in
      if N \<le> 1 then Some (Inr x)
      else if N AND (N - 1) \<noteq> 0 then Some (Inl InvalidArgument)
      else
        Option.bind (bitrev_loop N 1 0 x) (\<lambda>x1.
        Option.bind (fft_stages (twiddles N) N 2 x1) (\<lambda>x2.
        Some (Inr x2))))"

text \<open>
  \<^verbatim>\<open>for (auto &val : x) val = std::conj(val);
  FFT(x);
  float normFactor = 1.0f / static_cast<float>(N);
  for (auto &val : x) val = std::conj(val) * normFactor;\<close>
\<close>

definition IFFT :: "complex list \<Rightarrow> (error + complex list) option" where
  "IFFT x =
     (let N = length x in
      if N \<le> 1 then Some (Inr x)
      else if N AND (N - 1) \<noteq> 0 then Some (Inl InvalidArgument)
      else
        (case FFT (map cnj x) of
           None \<Rightarrow> None
         | Some (Inl e) \<Rightarrow> Some (Inl e)
         | Some (Inr y) \<Rightarrow>
             (let normFactor = 1 / real N
              in Some (Inr (map (\<lambda>val. cnj val * of_real normFactor) y)))))"

subsection \<open>Conversions and rounding of the C++ library\<close>

text \<open>
  \<^verbatim>\<open>static_cast<int>\<close> and \<^verbatim>\<open>static_cast<size_t>\<close> of a float truncate towards zero;
  \<^verbatim>\<open>std::round\<close> rounds half-way cases away from zero.
\<close>

definition trunc :: "real \<Rightarrow> int" where
  "trunc r = (if 0 \<le> r then \<lfloor>r\<rfloor> else \<lceil>r\<rceil>)"

definition cround :: "real \<Rightarrow> real" where
  "cround r = (if 0 \<le> r then of_int \<lfloor>r + 1 / 2\<rfloor> else of_int \<lceil>r - 1 / 2\<rceil>)"

text \<open>
  \<^verbatim>\<open>static_cast<int>\<close> of a \<^verbatim>\<open>size_t\<close>: the value modulo \<open>2^32\<close>, read as a signed
  32-bit integer. It is the identity below \<open>2^31\<close>.
\<close>

definition cast_int :: "nat \<Rightarrow> int" where
  "cast_int n = sint (word_of_nat n :: 32 word)"

text \<open>Subtraction of two \<^verbatim>\<open>size_t\<close> values (both below \<open>2^64\<close>): it wraps around.\<close>

definition size_sub :: "nat \<Rightarrow> nat \<Rightarrow> nat" where
  "size_sub a b = (2 ^ 64 + a - b) mod 2 ^ 64"

subsection \<open>Window functions\<close>

text \<open>
  \<^verbatim>\<open>window[i] = 0.5f * (1.0f - std::cos(2.0f * M_PI * i / (size - 1)));\<close>
  For \<open>size = 1\<close> the divisor is zero: the quotient is \<open>0.0/0.0\<close>, not a number, and so
  is the coefficient. A coefficient is therefore either \<open>NaN\<close> or a finite value.
  No statement of the function throws. (\<open>sz\<close> is the source's \<open>size\<close>.)
\<close>

datatype cfloat = NaN | Finite real

primrec value_of :: "cfloat \<Rightarrow> real" where
  "value_of (Finite r) = r"

definition hanningCoeff :: "nat \<Rightarrow> nat \<Rightarrow> cfloat" where
  "hanningCoeff sz i =
     (if sz - 1 = 0 then NaN
      else Finite (0.5 * (1 - cos (2 * pi * real i / real (sz - 1)))))"

definition hanningWindow :: "nat \<Rightarrow> cfloat list" where
  "hanningWindow sz = map (hanningCoeff sz) [0..<sz]"

text \<open>
  \<^verbatim>\<open>const float norm = static_cast<float>(2.0 * M_PI / (N - 1));
  for (int i = 0; i < static_cast<int>(N); i++) buffer[i] *= 0.5f * (1.0f - std::cos(i * norm));\<close>
  The repository calls it on buffers of 1024 and 2048 samples; the model is meant for
  \<open>N \<ge> 2\<close> (a one-sample buffer becomes not-a-number in the source).
\<close>

definition applyHannWindow :: "real list \<Rightarrow> real list" where
  "applyHannWindow buffer =
     (let N = length buffer; norm = 2 * pi / real (N - 1)
      in map (\<lambda>i. buffer ! i * (0.5 * (1 - cos (real i * norm)))) [0..<N])"

subsection \<open>applyPhaseVocoder\<close>

text \<open>
  The transient scan, with its \<^verbatim>\<open>break\<close>:
  \<^verbatim>\<open>for (size_t i = 1; i < numBins - 1; i++) {
    float currentMag = std::abs(spectrum[i]);
    if (previousMagnitude[i] > 0.0f) {
      float ratio = currentMag / previousMagnitude[i];
      if (ratio > 3.0f) { isTransient = true; break; } } }\<close>
\<close>

fun transient_scan :: "complex list \<Rightarrow> real list \<Rightarrow> nat list \<Rightarrow> bool" where
  "transient_scan spectrum previousMagnitude [] = False"
| "transient_scan spectrum previousMagnitude (i # rest) =
     (if previousMagnitude ! i > 0 \<and> cmod (spectrum ! i) / previousMagnitude ! i > 3
      then True
      else transient_scan spectrum previousMagnitude rest)"

text \<open>
  One pass of the loop over the positive frequency bins. The state is the spectrum
  being built and the two tracking arrays, which the source updates through
  references.
\<close>

definition vocoder_bin ::
  "complex list \<Rightarrow> real \<Rightarrow> real \<Rightarrow> bool \<Rightarrow> nat \<Rightarrow>
   complex list \<times> real list \<times> real list \<Rightarrow> complex list \<times> real list \<times> real list" where
  "vocoder_bin spectrum stretchFactor frameDelta isTransient i =
     (\<lambda>(modifiedSpectrum, previousPhase, previousMagnitude).
        let N = length spectrum;
            numBins = N div 2 + 1;
            omega = 2 * pi / real N;
            magnitude = cmod (spectrum ! i);
            phase = Arg (spectrum ! i);
            newPhase =
              (if 0 < i \<and> i < numBins - 1 then
                 (if isTransient \<and> magnitude > 0.01 then phase
                  else
                    let expectedPhaseAdvance = omega * real i * frameDelta;
                        phaseDiff0 = phase - previousPhase ! i;
                        phaseDiff = phaseDiff0 - 2 * pi * cround (phaseDiff0 / (2 * pi));
                        instFreq = expectedPhaseAdvance + phaseDiff / frameDelta
                    in previousPhase ! i + instFreq * frameDelta * stretchFactor)
               else 0)
        in (modifiedSpectrum[i := rcis magnitude newPhase],
            previousPhase[i := newPhase],
            previousMagnitude[i := magnitude]))"

text \<open>
  \<^verbatim>\<open>applyPhaseVocoder\<close> returns the modified spectrum together with the updated
  tracking arrays. It is private and only called on spectra of 4096 bins.
\<close>

definition applyPhaseVocoder ::
  "complex list \<Rightarrow> real \<Rightarrow> real list \<Rightarrow> real list \<Rightarrow> real \<Rightarrow>
   complex list \<times> real list \<times> real list" where
  "applyPhaseVocoder spectrum stretchFactor previousPhase previousMagnitude frameDelta =
     (let N = length spectrum;
          numBins = N div 2 + 1;
          isTransient = transient_scan spectrum previousMagnitude [1..<numBins - 1];
          (ms1, pp, pm) =
            fold (vocoder_bin spectrum stretchFactor frameDelta isTransient) [0..<numBins]
              (replicate N 0, previousPhase, previousMagnitude);
          ms2 = fold (\<lambda>i ms. ms[N - i := cnj (ms ! i)]) [1..<N div 2] ms1;
          ms3 = ms2[0 := Complex (Re (ms2 ! 0)) 0];
          ms4 = (if N mod 2 = 0 then ms3[N div 2 := Complex (Re (ms3 ! (N div 2))) 0] else ms3)
      in (ms4, pp, pm))"

subsection \<open>timeStretch\<close>

text \<open>
  \<^verbatim>\<open>windowSize = 4096;  const unsigned int analysisHop = windowSize / 4;\<close>
  The caller's window size is overwritten, so both are constants of the function.
\<close>

definition ts_windowSize :: nat where
  "ts_windowSize = 4096"

definition ts_analysisHop :: nat where
  "ts_analysisHop = ts_windowSize div 4"

text \<open>
  \<^verbatim>\<open>for (unsigned int i = 0; i < windowSize; i += analysisHop)
    if (i < windowSize) analysisWindowSum += analysisWindow[i] * analysisWindow[i];\<close>
\<close>

function window_sum_loop :: "real list \<Rightarrow> nat \<Rightarrow> real \<Rightarrow> real" where
  "window_sum_loop analysisWindow i analysisWindowSum =
     (if i < ts_windowSize then
        window_sum_loop analysisWindow (i + ts_analysisHop)
          (if i < ts_windowSize then analysisWindowSum + analysisWindow ! i * analysisWindow ! i
           else analysisWindowSum)
      else analysisWindowSum)"
  by pat_completeness auto
termination
  by (relation "measure (\<lambda>(w, i, s). ts_windowSize - i)")
     (auto simp: ts_analysisHop_def ts_windowSize_def)

text \<open>The variables the frame loop updates (\<open>outputBuf\<close> is the source's \<open>output\<close>).\<close>

record ts_state =
  outputPos :: nat
  outputBuf :: "real list"
  overlapCompensation :: "real list"
  previousPhase :: "real list"
  previousMagnitude :: "real list"

text \<open>
  The overlap-add of one frame:
  \<^verbatim>\<open>if (outputPos + windowSize <= output.size())
    for (size_t i = 0; i < windowSize; i++) {
      float windowedSample = processedFrame[i].real() * synthesisWindow[i];
      output[outputPos + i] += windowedSample;
      overlapCompensation[outputPos + i] += synthesisWindow[i] * synthesisWindow[i]; }\<close>
\<close>

definition overlap_add :: "complex list \<Rightarrow> real list \<Rightarrow> nat \<Rightarrow> ts_state \<Rightarrow> ts_state" where
  "overlap_add processedFrame synthesisWindow i st =
     (let windowedSample = Re (processedFrame ! i) * synthesisWindow ! i;
          p = outputPos st + i
      in st\<lparr>outputBuf := (outputBuf st)[p := outputBuf st ! p + windowedSample],
            overlapCompensation :=
              (overlapCompensation st)
                [p := overlapCompensation st ! p + synthesisWindow ! i * synthesisWindow ! i]\<rparr>)"

text \<open>
  \<^verbatim>\<open>for (size_t pos = 0; pos + windowSize <= paddedInput.size(); pos += analysisHop)\<close>
  Each pass windows a frame, transforms it, runs the phase vocoder, transforms back
  and overlap-adds. An exception of \<^verbatim>\<open>FFT\<close> or \<^verbatim>\<open>IFFT\<close> leaves the function.
\<close>

function frame_loop ::
  "real list \<Rightarrow> real list \<Rightarrow> real list \<Rightarrow> real \<Rightarrow> nat \<Rightarrow> nat \<Rightarrow> ts_state \<Rightarrow>
   (error + ts_state) option" where
  "frame_loop paddedInput analysisWindow synthesisWindow stretchFactor synthesisHop pos st =
     (if pos + ts_windowSize \<le> length paddedInput then
        (let frame = map (\<lambda>i. Complex (paddedInput ! (pos + i) * analysisWindow ! i) 0)
                       [0..<ts_windowSize]
         in case FFT frame of
              None \<Rightarrow> None
            | Some (Inl e) \<Rightarrow> Some (Inl e)
            | Some (Inr spectrum) \<Rightarrow>
                (let frameDelta = real ts_analysisHop / 44100;
                     (processedFrame0, pp, pm) =
                       applyPhaseVocoder spectrum stretchFactor
                         (previousPhase st) (previousMagnitude st) frameDelta
                 in case IFFT processedFrame0 of
                      None \<Rightarrow> None
                    | Some (Inl e) \<Rightarrow> Some (Inl e)
                    | Some (Inr processedFrame) \<Rightarrow>
                        (let st1 = st\<lparr>previousPhase := pp, previousMagnitude := pm\<rparr>;
                             st2 = (if outputPos st1 + ts_windowSize \<le> length (outputBuf st1)
                                    then fold (overlap_add processedFrame synthesisWindow)
                                           [0..<ts_windowSize] st1
                                    else st1);
                             st3 = st2\<lparr>outputPos := outputPos st2 + synthesisHop\<rparr>
                         in frame_loop paddedInput analysisWindow synthesisWindow stretchFactor
                              synthesisHop (pos + ts_analysisHop) st3)))
      else Some (Inr st))"
  by pat_completeness auto
termination
  by (relation "measure (\<lambda>(p, aw, sw, f, h, pos, st). length p - pos)")
     (auto simp: ts_analysisHop_def ts_windowSize_def)

text \<open>
  The function itself. The guard clauses come first; \<open>windowSize0\<close> is the caller's
  window size, which the source overwrites with 4096. \<^verbatim>\<open>inputRMS\<close> and
  \<^verbatim>\<open>outputRMS\<close> divide by the buffer lengths; for an empty output the source's
  \<open>0.0/0.0\<close> fails the test \<^verbatim>\<open>outputRMS > 0.0f\<close>, as the model's quotient \<open>0\<close> does.
\<close>

definition timeStretch :: "real list \<Rightarrow> real \<Rightarrow> nat \<Rightarrow> (error + real list) option" where
  "timeStretch input stretchFactor windowSize0 =
     (if input = [] \<or> stretchFactor \<le> 0 then Some (Inr input)
      else if \<bar>stretchFactor - 1\<bar> < 0.001 then Some (Inr input)
      else if stretchFactor < 0.25 \<or> stretchFactor > 4 then Some (Inr input)
      else
        let windowSize = ts_windowSize;
            analysisHop = ts_analysisHop;
            synthesisHop = nat (trunc (real analysisHop * stretchFactor));
            analysisWindow0 = map value_of (hanningWindow windowSize);
            synthesisWindow0 = map value_of (hanningWindow windowSize);
            analysisWindowSum = window_sum_loop analysisWindow0 0 0;
            analysisWindow =
              (if analysisWindowSum > 0
               then map (\<lambda>w. w * (1 / sqrt analysisWindowSum)) analysisWindow0
               else analysisWindow0);
            synthesisNorm = 1;
            synthesisWindow = map (\<lambda>w. w * synthesisNorm) synthesisWindow0;
            outputLength = nat (trunc (real (length input) * stretchFactor + real windowSize));
            paddedInput = replicate windowSize 0 @ input @ replicate windowSize 0;
            st0 = \<lparr>outputPos = 0,
                   outputBuf = replicate outputLength 0,
                   overlapCompensation = replicate outputLength 0,
                   previousPhase = replicate (windowSize div 2 + 1) 0,
                   previousMagnitude = replicate (windowSize div 2 + 1) 0\<rparr>
        in case frame_loop paddedInput analysisWindow synthesisWindow stretchFactor
                  synthesisHop 0 st0 of
             None \<Rightarrow> None
           | Some (Inl e) \<Rightarrow> Some (Inl e)
           | Some (Inr st) \<Rightarrow>
               (let out1 = map (\<lambda>i. if overlapCompensation st ! i > 0.01
                                     then outputBuf st ! i / sqrt (overlapCompensation st ! i)
                                     else outputBuf st ! i)
                             [0..<length (outputBuf st)];
                    expectedLength = nat (trunc (real (length input) * stretchFactor));
                    out2 = (if expectedLength < length out1 then take expectedLength out1
                            else out1);
                    inputRMS = sqrt (sum_list (map (\<lambda>sample. sample * sample) input)
                                     / real (length input));
                    outputRMS = sqrt (sum_list (map (\<lambda>sample. sample * sample) out2)
                                      / real (length out2));
                    out3 = (if outputRMS > 0 \<and> inputRMS > 0
                            then let amplitudeCorrection = min (inputRMS / outputRMS) 3
                                 in map (\<lambda>sample. sample * amplitudeCorrection) out2
                            else out2)
                in Some (Inr (map (\<lambda>sample. max (- 0.95) (min 0.95 sample)) out3))))"

section \<open>BPM\_Detector\<close>

subsection \<open>detectOnsets\<close>

text \<open>
  \<^verbatim>\<open>const size_t windowSizes[] = {1024, 2048};  const size_t hopSize = 512;
  const size_t numFrames = (samples.size() - windowSizes[0]) / hopSize + 1;\<close>
  The subtraction is unsigned.
\<close>

definition do_hopSize :: nat where
  "do_hopSize = 512"

definition numFrames :: "nat \<Rightarrow> nat" where
  "numFrames n = size_sub n 1024 div do_hopSize + 1"

text \<open>
  \<^verbatim>\<open>const size_t sampleIdx = frame * hopSize + i;
  buffer[i] = (sampleIdx < samples.size()) ? samples[sampleIdx] : 0.0f;\<close>
\<close>

definition fill_buffer :: "real list \<Rightarrow> nat \<Rightarrow> nat \<Rightarrow> real list" where
  "fill_buffer samples windowSize frame =
     map (\<lambda>i. let sampleIdx = (frame * do_hopSize + i) mod 2 ^ 64
              in if sampleIdx < length samples then samples ! sampleIdx else 0)
       [0..<windowSize]"

text \<open>
  One bin of the spectral flux; the state is \<open>(flux, prevMagnitudes)\<close>.
  \<^verbatim>\<open>const float freq = static_cast<float>(i) * sampleRate / windowSize;
  const float freqWeight = (freq > 100 && freq < 8000) ? 1.0f : 0.5f;
  const float mag = std::abs(fftBuffer[i]);
  const float diff = mag - prevMagnitudes[i];
  if (diff > 0) flux += diff * freqWeight;
  prevMagnitudes[i] = mag;\<close>
\<close>

definition flux_bin :: "complex list \<Rightarrow> nat \<Rightarrow> nat \<Rightarrow> nat \<Rightarrow> real \<times> real list \<Rightarrow> real \<times> real list" where
  "flux_bin fftBuffer sampleRate windowSize i =
     (\<lambda>(flux, prevMagnitudes).
        let freq = real i * real sampleRate / real windowSize;
            freqWeight = (if freq > 100 \<and> freq < 8000 then 1 else 0.5);
            mag = cmod (fftBuffer ! i);
            diff = mag - prevMagnitudes ! i
        in (if diff > 0 then flux + diff * freqWeight else flux, prevMagnitudes[i := mag]))"

text \<open>
  The loop over the frames of one window size; the state is
  \<open>(spectralFlux, prevMagnitudes)\<close>. \<^verbatim>\<open>FFT\<close> may throw.
\<close>

fun flux_frames ::
  "real list \<Rightarrow> nat \<Rightarrow> nat \<Rightarrow> nat list \<Rightarrow> real list \<times> real list \<Rightarrow>
   (error + real list \<times> real list) option" where
  "flux_frames samples sampleRate windowSize [] acc = Some (Inr acc)"
| "flux_frames samples sampleRate windowSize (frame # rest) (spectralFlux, prevMagnitudes) =
     (let buffer = applyHannWindow (fill_buffer samples windowSize frame);
          fftBuffer0 = map (\<lambda>v. Complex v 0) buffer
      in case FFT fftBuffer0 of
           None \<Rightarrow> None
         | Some (Inl e) \<Rightarrow> Some (Inl e)
         | Some (Inr fftBuffer) \<Rightarrow>
             (let (flux, pm) =
                    fold (flux_bin fftBuffer sampleRate windowSize) [1..<windowSize div 2 + 1]
                      (0, prevMagnitudes)
              in flux_frames samples sampleRate windowSize rest
                   (spectralFlux[frame := flux], pm)))"

text \<open>
  The body of \<^verbatim>\<open>for (const size_t windowSize : windowSizes)\<close>: the flux of every
  frame, normalised by its maximum (when that is positive) and added to
  \<open>onsetStrength\<close>. \<open>numFrames\<close> is at least 1, so \<^verbatim>\<open>std::max_element\<close> has an
  element to return.
\<close>

definition window_pass ::
  "real list \<Rightarrow> nat \<Rightarrow> nat \<Rightarrow> nat \<Rightarrow> real list \<Rightarrow> (error + real list) option" where
  "window_pass samples sampleRate nFrames windowSize onsetStrength =
     (case flux_frames samples sampleRate windowSize [0..<nFrames]
             (replicate nFrames 0, replicate (windowSize div 2 + 1) 0) of
        None \<Rightarrow> None
      | Some (Inl e) \<Rightarrow> Some (Inl e)
      | Some (Inr (spectralFlux, pm)) \<Rightarrow>
          (let maxFlux = Max (set spectralFlux)
           in if maxFlux > 0
              then Some (Inr (map (\<lambda>i. onsetStrength ! i + spectralFlux ! i / maxFlux)
                                [0..<nFrames]))
              else Some (Inr onsetStrength)))"

text \<open>
  The median filter of width 11:
  \<^verbatim>\<open>int idx = static_cast<int>(i) + j - medianSize / 2;
  if (idx < 0 || idx >= static_cast<int>(onsetStrength.size())) window[j] = 0;
  else window[j] = onsetStrength[idx];
  std::nth_element(window.begin(), window.begin() + medianSize / 2, window.end());
  float median = window[medianSize / 2];
  float diff = onsetStrength[i] - median;
  medianFiltered[i] = (diff > 0.0f) ? diff : 0.0f;\<close>
\<close>

definition median_at :: "real list \<Rightarrow> nat \<Rightarrow> real" where
  "median_at onsetStrength i =
     (let window = map (\<lambda>j. let idx = cast_int i + int j - 5
                              in if idx < 0 \<or> idx \<ge> cast_int (length onsetStrength) then 0
                                 else onsetStrength ! nat idx)
                     [0..<11];
          median = sort window ! 5;
          diff = onsetStrength ! i - median
      in if diff > 0 then diff else 0)"

definition detectOnsets :: "real list \<Rightarrow> nat \<Rightarrow> (error + real list) option" where
  "detectOnsets samples sampleRate =
     (let nFrames = numFrames (length samples);
          onsetStrength0 = replicate nFrames 0
      in case window_pass samples sampleRate nFrames 1024 onsetStrength0 of
           None \<Rightarrow> None
         | Some (Inl e) \<Rightarrow> Some (Inl e)
         | Some (Inr onsetStrength1) \<Rightarrow>
             (case window_pass samples sampleRate nFrames 2048 onsetStrength1 of
                None \<Rightarrow> None
              | Some (Inl e) \<Rightarrow> Some (Inl e)
              | Some (Inr onsetStrength2) \<Rightarrow>
                  (let onsetStrength = map (\<lambda>val. val / 2) onsetStrength2
                   in Some (Inr (map (median_at onsetStrength)
                                   [0..<length onsetStrength])))))"

subsection \<open>findBeats\<close>

text \<open>
  Every read and write of a vector in \<^verbatim>\<open>findBeats\<close> is checked: an access outside
  the vector is undefined behaviour in the source and the value \<open>None\<close> here.
\<close>

definition nth_opt :: "'a list \<Rightarrow> nat \<Rightarrow> 'a option" where
  "nth_opt xs i = (if i < length xs then Some (xs ! i) else None)"

text \<open>
  \<^verbatim>\<open>for (size_t j = (i > statsWindow / 2) ? (i - statsWindow / 2) : 0;
       j < (i + statsWindow / 2 < length ? i + statsWindow / 2 : length); j++) {
    sum += onsetFunction[j];  sumSq += onsetFunction[j] * onsetFunction[j];  count++; }\<close>
  with \<open>statsWindow = 30\<close>; the state is \<open>(s1, sumSq, cnt)\<close>, the source's
  \<open>sum\<close>, \<open>sumSq\<close> and \<open>count\<close>.
\<close>

fun stats_loop :: "real list \<Rightarrow> nat list \<Rightarrow> real \<times> real \<times> int \<Rightarrow> (real \<times> real \<times> int) option" where
  "stats_loop onsetFunction [] acc = Some acc"
| "stats_loop onsetFunction (j # rest) (s1, sumSq, cnt) =
     (case nth_opt onsetFunction j of
        None \<Rightarrow> None
      | Some v \<Rightarrow> stats_loop onsetFunction rest (s1 + v, sumSq + v * v, cnt + 1))"

text \<open>
  \<^verbatim>\<open>const float mean = sum / count;
  const float variance = (sumSq / count) - (mean * mean);
  threshold[i] = mean + thresholdFactor * std::sqrt(variance);\<close>
\<close>

definition threshold_at :: "real list \<Rightarrow> real \<Rightarrow> nat \<Rightarrow> real option" where
  "threshold_at onsetFunction thresholdFactor i =
     (let len = length onsetFunction;
          lo = (if i > 30 div 2 then i - 30 div 2 else 0);
          hi = (if i + 30 div 2 < len then i + 30 div 2 else len)
      in case stats_loop onsetFunction [lo..<hi] (0, 0, 0) of
           None \<Rightarrow> None
         | Some (s1, sumSq, cnt) \<Rightarrow>
             (let mean = s1 / of_int cnt;
                  variance = sumSq / of_int cnt - mean * mean
              in Some (mean + thresholdFactor * sqrt variance)))"

text \<open>\<^verbatim>\<open>for (size_t i = 0; i < length; i++)\<close>, filling \<open>threshold\<close>.\<close>

fun threshold_loop :: "real list \<Rightarrow> real \<Rightarrow> nat list \<Rightarrow> real list \<Rightarrow> real list option" where
  "threshold_loop onsetFunction thresholdFactor [] threshold = Some threshold"
| "threshold_loop onsetFunction thresholdFactor (i # rest) threshold =
     (case threshold_at onsetFunction thresholdFactor i of
        None \<Rightarrow> None
      | Some t \<Rightarrow>
          if i < length threshold
          then threshold_loop onsetFunction thresholdFactor rest (threshold[i := t])
          else None)"

text \<open>
  The local-maximum test, with its \<^verbatim>\<open>break\<close>:
  \<^verbatim>\<open>for (int j = -windowSize; j <= windowSize; j++) {
    if (j == 0) continue;
    const int idx = static_cast<int>(i) + j;
    if (idx >= 0 && idx < static_cast<int>(length) && onsetFunction[idx] > onsetFunction[i]) {
      isPeak = false; break; } }\<close>
  The result is the final value of \<open>isPeak\<close>.
\<close>

fun neighbour_scan :: "real list \<Rightarrow> nat \<Rightarrow> int list \<Rightarrow> bool option" where
  "neighbour_scan onsetFunction i [] = Some True"
| "neighbour_scan onsetFunction i (j # rest) =
     (if j = 0 then neighbour_scan onsetFunction i rest
      else
        let idx = cast_int i + j
        in if idx \<ge> 0 \<and> idx < cast_int (length onsetFunction) then
             (case nth_opt onsetFunction (nat idx) of
                None \<Rightarrow> None
              | Some a \<Rightarrow>
                  (case nth_opt onsetFunction i of
                     None \<Rightarrow> None
                   | Some b \<Rightarrow>
                       if a > b then Some False else neighbour_scan onsetFunction i rest))
           else neighbour_scan onsetFunction i rest)"

text \<open>
  \<^verbatim>\<open>for (size_t i = windowSize; i < length - windowSize; i++) {
    if (onsetFunction[i] <= threshold[i]) continue;
    ...
    if (isPeak) peaks.push_back(i); }\<close>
  \<open>bound\<close> is the value of \<^verbatim>\<open>length - windowSize\<close>, an unsigned difference.
\<close>

function peak_loop :: "real list \<Rightarrow> real list \<Rightarrow> nat \<Rightarrow> nat \<Rightarrow> nat list \<Rightarrow> nat list option" where
  "peak_loop onsetFunction threshold bound i peaks =
     (if i < bound then
        (case nth_opt onsetFunction i of
           None \<Rightarrow> None
         | Some v \<Rightarrow>
             (case nth_opt threshold i of
                None \<Rightarrow> None
              | Some t \<Rightarrow>
                  if v \<le> t then peak_loop onsetFunction threshold bound (i + 1) peaks
                  else
                    (case neighbour_scan onsetFunction i [-9..9] of
                       None \<Rightarrow> None
                     | Some isPeak \<Rightarrow>
                         peak_loop onsetFunction threshold bound (i + 1)
                           (if isPeak then peaks @ [i] else peaks))))
      else Some peaks)"
  by pat_completeness auto
termination
  by (relation "measure (\<lambda>(e, t, bound, i, p). bound - i)") auto

definition findBeats :: "real list \<Rightarrow> real \<Rightarrow> nat list option" where
  "findBeats onsetFunction thresholdFactor =
     (let len = length onsetFunction
      in case threshold_loop onsetFunction thresholdFactor [0..<len] (replicate len 0) of
           None \<Rightarrow> None
         | Some threshold \<Rightarrow> peak_loop onsetFunction threshold (size_sub len 9) 9 [])"

subsection \<open>estimateTempo\<close>

text \<open>
  \<^verbatim>\<open>beatTimes.push_back(static_cast<float>(beat * hopSize) / sampleRate);\<close>
  The product is a \<^verbatim>\<open>size_t\<close>.
\<close>

definition beatTime :: "nat \<Rightarrow> nat \<Rightarrow> nat \<Rightarrow> real" where
  "beatTime sampleRate hopSize beat = real ((beat * hopSize) mod 2 ^ 64) / real sampleRate"

text \<open>
  \<^verbatim>\<open>for (size_t i = 1; i < beatTimes.size(); i++) {
    float ibi = beatTimes[i] - beatTimes[i - 1];
    if (ibi >= 0.2f && ibi <= 2.0f) intervals.push_back(ibi); }\<close>
  With \<open>sampleRate = 0\<close> every beat time is infinite or not a number, so every
  \<open>ibi\<close> is not a number and fails both comparisons: no interval is kept.
\<close>

fun collect_intervals :: "nat \<Rightarrow> real list \<Rightarrow> real list" where
  "collect_intervals sampleRate (t0 # t1 # rest) =
     (let ibi = t1 - t0
      in (if sampleRate \<noteq> 0 \<and> ibi \<ge> 0.2 \<and> ibi \<le> 2 then [ibi] else [])
         @ collect_intervals sampleRate (t1 # rest))"
| "collect_intervals sampleRate ts = []"

text \<open>
  \<^verbatim>\<open>std::unordered_map<int, float> tempoHistogram\<close> is an association list, in the
  order of insertion. \<^verbatim>\<open>tempoHistogram[bpmKey] += w\<close> inserts the key with value 0
  first when it is absent.
\<close>

definition hist_add :: "int \<Rightarrow> real \<Rightarrow> (int \<times> real) list \<Rightarrow> (int \<times> real) list" where
  "hist_add bpmKey w hist =
     (case map_of hist bpmKey of
        None \<Rightarrow> hist @ [(bpmKey, 0 + w)]
      | Some v \<Rightarrow> map (\<lambda>(k, u). if k = bpmKey then (k, u + w) else (k, u)) hist)"

text \<open>
  The votes of one interval:
  \<^verbatim>\<open>if (tempo.first >= 50.0f && tempo.first <= 220.0f) {
    const int bpmKey = static_cast<int>(tempo.first * 2.0f);
    tempoHistogram[bpmKey] += weight * tempo.second; }\<close>
\<close>

definition cast_vote :: "real \<Rightarrow> real \<times> real \<Rightarrow> (int \<times> real) list \<Rightarrow> (int \<times> real) list" where
  "cast_vote weight tempo hist =
     (if fst tempo \<ge> 50 \<and> fst tempo \<le> 220
      then hist_add (trunc (fst tempo * 2)) (weight * snd tempo) hist
      else hist)"

definition vote_interval :: "real list \<Rightarrow> nat \<Rightarrow> (int \<times> real) list \<Rightarrow> (int \<times> real) list" where
  "vote_interval intervals i hist =
     (let weight = 0.5 + 0.5 * (real i / real (length intervals));
          primaryBPM = 60 / intervals ! i;
          tempos = [(primaryBPM, 1), (primaryBPM * 2, 0.9), (primaryBPM / 2, 0.8),
                    (primaryBPM * 3, 0.5), (primaryBPM / 3, 0.5)]
      in fold (cast_vote weight) tempos hist)"

text \<open>
  \<^verbatim>\<open>for (const auto &entry : tempoHistogram)
    if (entry.second > maxScore) { maxScore = entry.second; bestBPMKey = entry.first; }\<close>
  The state is \<open>(bestBPMKey, maxScore)\<close>.
\<close>

fun find_best :: "(int \<times> real) list \<Rightarrow> int \<times> real \<Rightarrow> int \<times> real" where
  "find_best [] acc = acc"
| "find_best ((k, v) # rest) (bestBPMKey, maxScore) =
     (if v > maxScore then find_best rest (k, v) else find_best rest (bestBPMKey, maxScore))"

text \<open>
  The refinement, with its \<^verbatim>\<open>break\<close>:
  \<^verbatim>\<open>for (int offset = -3; offset <= 3; offset++) {
    const int nearbyKey = bestBPMKey + offset;
    if (tempoHistogram.count(nearbyKey) && tempoHistogram[nearbyKey] > 0.92f * maxScore) {
      bestBPMKey = static_cast<int>((bestBPMKey * maxScore + nearbyKey * tempoHistogram[nearbyKey])
                                    / (maxScore + tempoHistogram[nearbyKey]));
      break; } }\<close>
  The result is the final value of \<open>bestBPMKey\<close>.
\<close>

fun refine_scan :: "(int \<times> real) list \<Rightarrow> int \<Rightarrow> real \<Rightarrow> int list \<Rightarrow> int" where
  "refine_scan hist bestBPMKey maxScore [] = bestBPMKey"
| "refine_scan hist bestBPMKey maxScore (offset # rest) =
     (let nearbyKey = bestBPMKey + offset
      in case map_of hist nearbyKey of
           None \<Rightarrow> refine_scan hist bestBPMKey maxScore rest
         | Some w \<Rightarrow>
             if w > 0.92 * maxScore
             then trunc ((of_int bestBPMKey * maxScore + of_int nearbyKey * w) / (maxScore + w))
             else refine_scan hist bestBPMKey maxScore rest)"

text \<open>
  The order in which a \<^verbatim>\<open>std::unordered_map\<close> is traversed is not specified; the
  model takes it as the parameter \<open>traversal\<close>, which maps the histogram to the
  sequence of its entries as the range-for loop meets them.
\<close>

definition estimateTempo ::
  "((int \<times> real) list \<Rightarrow> (int \<times> real) list) \<Rightarrow> nat list \<Rightarrow> nat \<Rightarrow> nat \<Rightarrow> int" where
  "estimateTempo traversal beats sampleRate hopSize =
     (if length beats < 4 then 0
      else
        let beatTimes = map (beatTime sampleRate hopSize) beats;
            intervals = collect_intervals sampleRate beatTimes
        in if intervals = [] then 0
           else
             let tempoHistogram = fold (vote_interval intervals) [0..<length intervals] [];
                 (bestBPMKey0, maxScore) = find_best (traversal tempoHistogram) (0, 0);
                 bestBPMKey = refine_scan tempoHistogram bestBPMKey0 maxScore [-3..3];
                 exactBPM0 = of_int bestBPMKey / 2;
                 exactBPM = (if exactBPM0 < 60 then exactBPM0 * 2
                             else if exactBPM0 > 180 then exactBPM0 / 2
                             else exactBPM0)
             in trunc (cround exactBPM))"

section \<open>Definitions for the statements\<close>

text \<open>
  Nothing below is code of the repository: these are the notions the statements and
  proofs about it use.
\<close>

text \<open>
  \<open>bitrev k n\<close> reverses the lowest \<open>k\<close> bits of \<open>n\<close>. The source has no such
  function: it is the value the loop variable \<open>j\<close> holds, and only serves the proof
  that the inner \<^verbatim>\<open>while\<close> loop returns.
\<close>

fun bitrev :: "nat \<Rightarrow> nat \<Rightarrow> nat" where
  "bitrev 0 n = 0"
| "bitrev (Suc k) n = (n mod 2) * 2 ^ k + bitrev k (n div 2)"

text \<open>
  The threshold in the words of the specification: mean and variance over the 30
  frames \<open>i - 15, ..., i + 14\<close>, cut off at both ends of the envelope, and
  \<open>threshold i = mean + factor * sqrt variance\<close>. The truncating subtraction of
  \<^typ>\<open>nat\<close> is the lower cut.
\<close>

definition window_of :: "real list \<Rightarrow> nat \<Rightarrow> nat list" where
  "window_of env i = [i - 15..<min (i + 15) (length env)]"

definition spec_threshold :: "real list \<Rightarrow> real \<Rightarrow> nat \<Rightarrow> real" where
  "spec_threshold env factor i =
     (let W = window_of env i;
          mean = sum_list (map (\<lambda>j. env ! j) W) / real (length W);
          variance = sum_list (map (\<lambda>j. (env ! j)\<^sup>2) W) / real (length W) - mean\<^sup>2
      in mean + factor * sqrt variance)"

text \<open>
  A beat in the words of the specification: the envelope exceeds the threshold, and no
  frame among the nine before and the nine after has a greater value.
\<close>

definition is_beat :: "real list \<Rightarrow> real \<Rightarrow> nat \<Rightarrow> bool" where
  "is_beat env factor i =
     (spec_threshold env factor i < env ! i \<and>
      (\<forall>j. i - 9 \<le> j \<and> j \<le> i + 9 \<and> j \<noteq> i \<longrightarrow> \<not> env ! i < env ! j))"

text \<open>
  A well-formed histogram: every key occurs once and every accumulated weight is
  positive.
\<close>

definition hist_ok :: "(int \<times> real) list \<Rightarrow> bool" where
  "hist_ok hist = (distinct (map fst hist) \<and> (\<forall>e\<in>set hist. 0 < snd e))"

text \<open>
  An input of \<open>estimateTempo\<close> on which the histogram has two strong buckets three
  keys apart: nine beats at intervals of 0.99 s and 1.01 s (\<open>hopSize = 1\<close>,
  \<open>sampleRate = 100\<close>), the intervals the function keeps, and the histogram it builds.
\<close>

definition example_beats :: "nat list" where
  "example_beats = [0, 99, 198, 299, 400, 501, 600, 701, 800]"

definition example_intervals :: "real list" where
  "example_intervals = [99/100, 99/100, 101/100, 101/100, 101/100, 99/100, 101/100, 99/100]"

definition example_hist :: "(int \<times> real) list" where
  "example_hist = [(121, 45 / 16), (242, 81 / 32), (363, 45 / 32), (118, 47 / 16),
            (237, 423 / 160), (356, 47 / 32)]"

text \<open>An envelope of 21 frames with a single burst at frame 10.\<close>

definition example_envelope :: "real list" where
  "example_envelope = [0, 0, 0, 0, 0, 0, 0, 0, 0, 0, 1, 0, 0, 0, 0, 0, 0, 0, 0, 0, 0]"

text \<open>
  The equations of the loops are applied one step at a time in the proofs, never by the
  simplifier on its own.
\<close>

declare bitrev_loop.simps [simp del] window_sum_loop.simps [simp del]
  frame_loop.simps [simp del] peak_loop.simps [simp del]

section \<open>Properties of FFT\_Processor\<close>

subsection \<open>The power-of-two test\<close>

lemma and_pred_pow2: "(2 ^ k :: nat) AND (2 ^ k - 1) = 0"
proof (induction k)
  case 0
  show ?case by simp
next
  case (Suc k)
  have d: "(2 ^ Suc k - 1 :: nat) div 2 = 2 ^ k - 1" by simp
  have "(2 ^ Suc k :: nat) AND (2 ^ Suc k - 1) =
        of_bool (odd (2 ^ Suc k :: nat) \<and> odd (2 ^ Suc k - 1 :: nat)) +
        2 * (((2 ^ Suc k) div 2) AND ((2 ^ Suc k - 1) div 2))"
    by (rule and_rec)
  also have "\<dots> = 2 * ((2 ^ k) AND (2 ^ k - 1))"
    unfolding d by simp
  finally show ?case using Suc by simp
qed

lemma and_pred_zero_pow2:
  "0 < n \<Longrightarrow> (n::nat) AND (n - 1) = 0 \<Longrightarrow> \<exists>k. n = 2 ^ k"
proof (induction n rule: less_induct)
  case (less n)
  show ?case
  proof (cases "even n")
    case True
    then obtain m where m: "n = 2 * m" by (auto elim: evenE)
    with less.prems have m0: "0 < m" by simp
    have d1: "(n - 1) div 2 = m - 1" using m m0 by (cases m) auto
    have "n AND (n - 1) = of_bool (odd n \<and> odd (n - 1)) + 2 * ((n div 2) AND ((n - 1) div 2))"
      by (rule and_rec)
    with less.prems(2) True have "(n div 2) AND ((n - 1) div 2) = 0" by simp
    then have "m AND (m - 1) = 0" using m d1 by simp
    moreover have "m < n" using m m0 by simp
    ultimately obtain k where "m = 2 ^ k" using less.IH m0 by blast
    then have "n = 2 ^ Suc k" using m by simp
    then show ?thesis by blast
  next
    case False
    then obtain m where m: "n = 2 * m + 1" by (auto elim: oddE)
    have "n AND (n - 1) = of_bool (odd n \<and> odd (n - 1)) + 2 * ((n div 2) AND ((n - 1) div 2))"
      by (rule and_rec)
    with less.prems(2) False have "(n div 2) AND ((n - 1) div 2) = 0" by simp
    then have "m = 0" using m by simp
    then have "n = 2 ^ 0" using m by simp
    then show ?thesis by blast
  qed
qed

subsection \<open>The transform returns on every power-of-two length\<close>

lemma bitrev_while_exit: "j < bt \<Longrightarrow> bitrev_while j bt = Some (j, bt)"
  by (subst bitrev_while.simps) simp

lemma bitrev_while_step: "bt \<le> j \<Longrightarrow> bitrev_while j bt = bitrev_while (j - bt) (bt div 2)"
  by (subst bitrev_while.simps) (simp add: drop_bit_eq_div)

lemma bitrev_less: "bitrev k n < 2 ^ k"
proof (induction k arbitrary: n)
  case 0
  show ?case by simp
next
  case (Suc k)
  have "n mod 2 \<le> 1" by simp
  then have "n mod 2 * 2 ^ k \<le> 1 * 2 ^ k" by (rule mult_right_mono) simp
  moreover have "bitrev k (n div 2) < 2 ^ k" by (rule Suc.IH)
  ultimately show ?case unfolding bitrev.simps power_Suc by linarith
qed

lemma bitrev_zero: "bitrev k 0 = 0"
  by (induction k) simp_all

lemma bitrev_while_succ:
  "i + 1 < 2 ^ k \<Longrightarrow>
   \<exists>j' b. bitrev_while (bitrev k i) (2 ^ k div 2) = Some (j', b) \<and> j' + b = bitrev k (i + 1)"
proof (induction k arbitrary: i)
  case 0
  then show ?case by simp
next
  case (Suc k)
  show ?case
  proof (cases "even i")
    case True
    then have r: "bitrev (Suc k) i = bitrev k (i div 2)" by simp
    have s: "bitrev (Suc k) (i + 1) = 2 ^ k + bitrev k (i div 2)"
      using True by (simp add: mod_Suc)
    have "bitrev_while (bitrev k (i div 2)) (2 ^ k) = Some (bitrev k (i div 2), 2 ^ k)"
      by (rule bitrev_while_exit) (rule bitrev_less)
    then show ?thesis using r s by simp
  next
    case False
    then have r: "bitrev (Suc k) i = 2 ^ k + bitrev k (i div 2)"
      by (simp add: odd_iff_mod_2_eq_one)
    have h: "i div 2 + 1 < 2 ^ k" using Suc.prems False by (auto elim!: oddE)
    have e: "(i + 1) div 2 = i div 2 + 1" "(i + 1) mod 2 = 0"
      using False by (auto elim!: oddE)
    have s: "bitrev (Suc k) (i + 1) = bitrev k (i div 2 + 1)"
      using e by simp
    have "bitrev_while (2 ^ k + bitrev k (i div 2)) (2 ^ k)
          = bitrev_while (bitrev k (i div 2)) (2 ^ k div 2)"
      by (subst bitrev_while_step) simp_all
    with Suc.IH [OF h] show ?thesis using r s by simp
  qed
qed

lemma bitrev_loop_pow2:
  "N = 2 ^ k \<Longrightarrow> 0 < i \<Longrightarrow> j = bitrev k (i - 1) \<Longrightarrow>
   \<exists>y. bitrev_loop N i j x = Some y \<and> length y = length x"
proof (induction N i j x rule: bitrev_loop.induct)
  case (1 N i j x)
  show ?case
  proof (cases "i < N")
    case False
    then show ?thesis by (subst bitrev_loop.simps) simp
  next
    case True
    with "1.prems" have "(i - 1) + 1 < 2 ^ k" by simp
    from bitrev_while_succ [OF this] "1.prems"
    obtain j' b where w: "bitrev_while j (2 ^ k div 2) = Some (j', b)"
      and jb: "j' + b = bitrev k i" by auto
    have w': "bitrev_while j (drop_bit 1 N) = Some (j', b)"
      using w "1.prems"(1) by (simp add: drop_bit_eq_div)
    define x' where "x' = (if i < j' + b then x[i := x ! (j' + b), j' + b := x ! i] else x)"
    have "\<exists>y. bitrev_loop N (i + 1) (j' + b) x' = Some y \<and> length y = length x'"
      using "1.prems" jb
      by (intro "1.IH" [OF True w' refl refl refl, folded x'_def]) (simp_all add: x'_def)
    moreover have "length x' = length x" by (simp add: x'_def)
    moreover have "bitrev_loop N i j x = bitrev_loop N (i + 1) (j' + b) x'"
      using True w' by (subst bitrev_loop.simps) (simp add: x'_def Let_def)
    ultimately show ?thesis by simp
  qed
qed

lemma butterfly_length: "length (butterfly tw step half_len i j x) = length x"
  by (simp add: butterfly_def Let_def)

lemma fold_butterfly_length:
  "length (fold (butterfly tw step half_len i) js x) = length x"
  by (induction js arbitrary: x) (simp_all add: butterfly_length)

lemma fft_blocks_returns:
  "0 < len \<Longrightarrow> \<exists>y. fft_blocks tw N len i x = Some y \<and> length y = length x"
proof (induction "N - i" arbitrary: i x rule: less_induct)
  case less
  show ?case
  proof (cases "i < N")
    case False
    then show ?thesis by (subst fft_blocks.simps) simp
  next
    case True
    let ?x' = "fold (butterfly tw (N div len) (len div 2) i) [0..<len div 2] x"
    have "N - (i + len) < N - i" using True less.prems by simp
    from less.hyps [OF this less.prems, of ?x']
    obtain y where "fft_blocks tw N len (i + len) ?x' = Some y" "length y = length ?x'" by blast
    then show ?thesis using True
      by (subst fft_blocks.simps) (simp add: fold_butterfly_length)
  qed
qed

lemma fft_stages_returns:
  "0 < len \<Longrightarrow> \<exists>y. fft_stages tw N len x = Some y \<and> length y = length x"
proof (induction "Suc N - len" arbitrary: len x rule: less_induct)
  case less
  show ?case
  proof (cases "len \<le> N")
    case False
    then show ?thesis by (subst fft_stages.simps) simp
  next
    case True
    from fft_blocks_returns [OF less.prems, of tw N 0 x]
    obtain x' where b: "fft_blocks tw N len 0 x = Some x'" "length x' = length x" by blast
    have "Suc N - len * 2 < Suc N - len" using True less.prems by simp
    from less.hyps [OF this, of x'] less.prems
    obtain y where "fft_stages tw N (len * 2) x' = Some y" "length y = length x'" by auto
    then show ?thesis using True b
      by (subst fft_stages.simps) simp
  qed
qed

lemma FFT_pow2:
  assumes "length x = 2 ^ k"
  shows "\<exists>y. FFT x = Some (Inr y) \<and> length y = length x"
proof (cases k)
  case 0
  with assms show ?thesis by (simp add: FFT_def)
next
  case (Suc k')
  have "(0::nat) < 2 ^ k'" by simp
  then have "(1::nat) < 2 * 2 ^ k'" by linarith
  then have big: "\<not> length x \<le> 1" using assms Suc by simp
  have a: "length x AND (length x - 1) = 0" using assms and_pred_pow2 [of k] by simp
  have "\<exists>y. bitrev_loop (length x) 1 0 x = Some y \<and> length y = length x"
    by (rule bitrev_loop_pow2 [of _ k]) (simp_all add: assms bitrev_zero)
  then obtain x1 where x1: "bitrev_loop (length x) 1 0 x = Some x1" "length x1 = length x"
    by blast
  from fft_stages_returns [of 2 "twiddles (length x)" "length x" x1]
  obtain x2 where x2: "fft_stages (twiddles (length x)) (length x) 2 x1 = Some x2"
    "length x2 = length x1" by auto
  show ?thesis using big a x1 x2 by (simp add: FFT_def Let_def)
qed


subsection \<open>The length check of FFT and IFFT\<close>

lemma not_pow2_and_pred:
  assumes "1 < n" "\<forall>k. n \<noteq> 2 ^ k"
  shows "(n::nat) AND (n - 1) \<noteq> 0"
proof
  assume "n AND (n - 1) = 0"
  with assms(1) and_pred_zero_pow2 [of n] obtain k where "n = 2 ^ k" by auto
  with assms(2) show False by blast
qed

text \<open>
  Claim C5. On a sequence of at most one element \<open>FFT\<close> and \<open>IFFT\<close> return at once
  and leave it unchanged. On a sequence of more than one element whose length is not a
  power of two, both throw \<^verbatim>\<open>std::invalid_argument\<close>.
\<close>

theorem FFT_IFFT_length_check:
  "(length x \<le> 1 \<longrightarrow> FFT x = Some (Inr x) \<and> IFFT x = Some (Inr x)) \<and>
   (1 < length x \<and> (\<forall>k. length x \<noteq> 2 ^ k) \<longrightarrow>
      FFT x = Some (Inl InvalidArgument) \<and> IFFT x = Some (Inl InvalidArgument))"
proof (intro conjI impI)
  assume "length x \<le> 1"
  then show "FFT x = Some (Inr x)" by (simp add: FFT_def)
next
  assume "length x \<le> 1"
  then show "IFFT x = Some (Inr x)" by (simp add: IFFT_def)
next
  assume a: "1 < length x \<and> (\<forall>k. length x \<noteq> 2 ^ k)"
  then have "length x AND (length x - 1) \<noteq> 0"
    by (intro not_pow2_and_pred) simp_all
  with a show "FFT x = Some (Inl InvalidArgument)" by (simp add: FFT_def Let_def)
next
  assume a: "1 < length x \<and> (\<forall>k. length x \<noteq> 2 ^ k)"
  then have "length x AND (length x - 1) \<noteq> 0"
    by (intro not_pow2_and_pred) simp_all
  with a show "IFFT x = Some (Inl InvalidArgument)" by (simp add: IFFT_def Let_def)
qed

lemma three_not_pow2: "(3::nat) \<noteq> 2 ^ k"
proof (cases k)
  case 0
  then show ?thesis by simp
next
  case (Suc k')
  have "even ((2::nat) ^ Suc k')" by simp
  moreover have "odd (3::nat)" by simp
  ultimately show ?thesis using Suc by metis
qed

text \<open>The check at a sequence of three, of one and of no elements.\<close>

theorem FFT_IFFT_length_check_witness:
  "FFT [1, 2, 3] = Some (Inl InvalidArgument) \<and> IFFT [1, 2, 3] = Some (Inl InvalidArgument) \<and>
   FFT [5] = Some (Inr [5]) \<and> IFFT [] = Some (Inr [])"
proof -
  have "length [1, 2, 3 :: complex] = 3" by simp
  then have h: "\<forall>k. length [1, 2, 3 :: complex] \<noteq> 2 ^ k"
    using three_not_pow2 by metis
  show ?thesis
    using FFT_IFFT_length_check [of "[1, 2, 3]"] FFT_IFFT_length_check [of "[5]"]
      FFT_IFFT_length_check [of "[]"] h
    by simp
qed

subsection \<open>hanningWindow on a window of one coefficient\<close>




subsection \<open>The guard clauses of timeStretch\<close>

text \<open>
  Claim C2. \<open>timeStretch\<close> returns its input unchanged when the input is empty, when
  the factor is not positive, when it is within 0.001 of 1, and when it lies outside
  \<open>[0.25, 4]\<close>; in particular at the factor 1.
\<close>

theorem timeStretch_guards:
  "(input = [] \<or> stretchFactor \<le> 0 \<or> \<bar>stretchFactor - 1\<bar> < 0.001 \<or>
    stretchFactor < 0.25 \<or> 4 < stretchFactor
      \<longrightarrow> timeStretch input stretchFactor windowSize = Some (Inr input)) \<and>
   timeStretch input 1 windowSize = Some (Inr input)"
  by (simp add: timeStretch_def)

text \<open>One input for each guard.\<close>

theorem timeStretch_guards_witness:
  "timeStretch [0.5, 0.25] 5 2048 = Some (Inr [0.5, 0.25]) \<and>
   timeStretch [] 2 2048 = Some (Inr []) \<and>
   timeStretch [0.5] (-1) 2048 = Some (Inr [0.5]) \<and>
   timeStretch [0.5] 1.0005 2048 = Some (Inr [0.5]) \<and>
   timeStretch [0.5] 0.2 2048 = Some (Inr [0.5])"
  using timeStretch_guards [of "[0.5, 0.25]" 5 2048] timeStretch_guards [of "[]" 2 2048]
    timeStretch_guards [of "[0.5]" "-1" 2048] timeStretch_guards [of "[0.5]" "1.0005" 2048]
    timeStretch_guards [of "[0.5]" "0.2" 2048]
  by simp

subsection \<open>The length of the stretched buffer\<close>













section \<open>Properties of BPM\_Detector\<close>

subsection \<open>estimateTempo without usable intervals\<close>




subsection \<open>The number of frames of detectOnsets\<close>

lemma fill_buffer_length: "length (fill_buffer samples windowSize frame) = windowSize"
  by (simp add: fill_buffer_def)

lemma fill_buffer_zero_pad:
  "i < windowSize \<Longrightarrow> frame * do_hopSize + i < 2 ^ 64 \<Longrightarrow>
   length samples \<le> frame * do_hopSize + i \<Longrightarrow>
   fill_buffer samples windowSize frame ! i = 0"
  by (simp add: fill_buffer_def Let_def)

lemma applyHannWindow_length: "length (applyHannWindow buffer) = length buffer"
  by (simp add: applyHannWindow_def Let_def)

lemma flux_frames_returns:
  "windowSize = 2 ^ k \<Longrightarrow>
   \<exists>sf pm. flux_frames samples sampleRate windowSize frames (spectralFlux, prevMagnitudes)
             = Some (Inr (sf, pm)) \<and> length sf = length spectralFlux"
proof (induction frames arbitrary: spectralFlux prevMagnitudes)
  case Nil
  then show ?case by simp
next
  case (Cons frame frames)
  let ?buf = "map (\<lambda>v. Complex v 0) (applyHannWindow (fill_buffer samples windowSize frame))"
  have "length ?buf = 2 ^ k"
    using Cons.prems by (simp add: applyHannWindow_length fill_buffer_length)
  from FFT_pow2 [OF this] obtain fftBuffer where fb: "FFT ?buf = Some (Inr fftBuffer)" by blast
  obtain flux pm where
    fl: "fold (flux_bin fftBuffer sampleRate windowSize) [1..<windowSize div 2 + 1]
           (0, prevMagnitudes) = (flux, pm)"
    by (cases "fold (flux_bin fftBuffer sampleRate windowSize) [1..<windowSize div 2 + 1]
           (0, prevMagnitudes)")
  from Cons.IH [OF Cons.prems, of "spectralFlux[frame := flux]" pm]
  obtain sf pm' where
    "flux_frames samples sampleRate windowSize frames (spectralFlux[frame := flux], pm)
       = Some (Inr (sf, pm'))" "length sf = length spectralFlux" by auto
  then show ?case using fb fl by (simp add: Let_def)
qed

lemma window_pass_returns:
  "windowSize = 2 ^ k \<Longrightarrow> length onsetStrength = nFrames \<Longrightarrow>
   \<exists>os. window_pass samples sampleRate nFrames windowSize onsetStrength = Some (Inr os) \<and>
        length os = nFrames"
proof -
  assume w: "windowSize = 2 ^ k" and l: "length onsetStrength = nFrames"
  from flux_frames_returns [OF w, of samples sampleRate "[0..<nFrames]" "replicate nFrames 0"
      "replicate (windowSize div 2 + 1) 0"]
  obtain sf pm where
    "flux_frames samples sampleRate windowSize [0..<nFrames]
       (replicate nFrames 0, replicate (windowSize div 2 + 1) 0) = Some (Inr (sf, pm))"
    by blast
  then show ?thesis using l by (simp add: window_pass_def Let_def)
qed

lemma detectOnsets_returns:
  "\<exists>out. detectOnsets samples sampleRate = Some (Inr out) \<and>
         length out = numFrames (length samples)"
proof -
  let ?n = "numFrames (length samples)"
  have p1: "(1024::nat) = 2 ^ 10" and p2: "(2048::nat) = 2 ^ 11" by simp_all
  from window_pass_returns [OF p1, of "replicate ?n 0" ?n samples sampleRate]
  obtain os1 where o1: "window_pass samples sampleRate ?n 1024 (replicate ?n 0) = Some (Inr os1)"
    "length os1 = ?n" by auto
  from window_pass_returns [OF p2 o1(2), of samples sampleRate]
  obtain os2 where o2: "window_pass samples sampleRate ?n 2048 os1 = Some (Inr os2)"
    "length os2 = ?n" by auto
  show ?thesis using o1 o2 by (simp add: detectOnsets_def Let_def)
qed

lemma size_sub_no_wrap:
  assumes "b \<le> a" "a < 2 ^ 64"
  shows "size_sub a b = a - b"
proof -
  have "(2 ^ 64 + a - b :: nat) = (a - b) + 2 ^ 64" using assms by simp
  then have "size_sub a b = ((a - b) + 2 ^ 64) mod 2 ^ 64" by (simp only: size_sub_def)
  also have "\<dots> = (a - b) mod 2 ^ 64" by (simp only: mod_add_self2)
  also have "\<dots> = a - b" using assms by (intro mod_less) simp
  finally show ?thesis .
qed

lemma size_sub_wrap:
  assumes "a < b" "b \<le> 2 ^ 64"
  shows "size_sub a b = 2 ^ 64 + a - b"
proof -
  have "(2 ^ 64 + a - b :: nat) < 2 ^ 64" using assms by simp
  then show ?thesis by (simp only: size_sub_def mod_less)
qed

lemma numFrames_long:
  "1024 \<le> n \<Longrightarrow> n < 2 ^ 64 \<Longrightarrow> numFrames n = (n - 1024) div 512 + 1"
  by (simp add: numFrames_def size_sub_no_wrap do_hopSize_def)

text \<open>
  From 1024 samples on, the envelope has \<open>floor ((N - 1024) / 512) + 1\<close> elements,
  a count that only looks at the window of 1024 samples; \<open>fill_buffer_zero_pad\<close>
  above is the zero padding of the frames that run past the end of the input.
\<close>

lemma detectOnsets_frame_count:
  assumes "1024 \<le> length samples" "length samples < 2 ^ 64"
  shows "\<exists>out. detectOnsets samples sampleRate = Some (Inr out) \<and>
               length out = (length samples - 1024) div 512 + 1"
  using detectOnsets_returns [of samples sampleRate] numFrames_long [OF assms] by simp

text \<open>
  Claim C6 gives the envelope \<open>floor ((N - 1024) / 512) + 1\<close> elements for every
  input. For an input of 1000 samples that number is 0, but the unsigned difference
  \<open>1000 - 1024\<close> wraps around: the function computes \<open>2^55\<close> frames and creates every
  vector of the analysis with that many elements.
\<close>

theorem detectOnsets_short_input:
  "numFrames (length (replicate 1000 (0::real))) = 2 ^ 55 \<and>
   (\<exists>out. detectOnsets (replicate 1000 0) 44100 = Some (Inr out) \<and> length out = 2 ^ 55)"
proof -
  have n: "numFrames 1000 = 2 ^ 55"
    by (simp add: numFrames_def size_sub_def do_hopSize_def)
  with detectOnsets_returns [of "replicate 1000 0" 44100] show ?thesis by simp
qed

subsection \<open>findBeats: every access is in bounds from nine frames on\<close>

lemma cast_int_le: "cast_int n \<le> int n"
  by (simp add: cast_int_def signed_of_nat signed_take_bit_int_less_eq_self_iff)

lemma cast_int_id: "n < 2 ^ 31 \<Longrightarrow> cast_int n = int n"
  by (simp add: cast_int_def signed_of_nat signed_take_bit_int_eq_self)

lemma size_sub_le: "b \<le> a \<Longrightarrow> size_sub a b \<le> a - b"
proof -
  assume "b \<le> a"
  then have "(2 ^ 64 + a - b :: nat) = (a - b) + 2 ^ 64" by simp
  then have "size_sub a b = ((a - b) + 2 ^ 64) mod 2 ^ 64" by (simp only: size_sub_def)
  also have "\<dots> = (a - b) mod 2 ^ 64" by (simp only: mod_add_self2)
  also have "\<dots> \<le> a - b" by (rule mod_less_eq_dividend)
  finally show ?thesis .
qed

lemma nth_opt_Some [simp]: "i < length xs \<Longrightarrow> nth_opt xs i = Some (xs ! i)"
  by (simp add: nth_opt_def)

lemma nth_opt_None [simp]: "length xs \<le> i \<Longrightarrow> nth_opt xs i = None"
  by (simp add: nth_opt_def)

lemma stats_loop_sum:
  "\<forall>j\<in>set js. j < length env \<Longrightarrow>
   stats_loop env js (s, q, c) =
     Some (s + sum_list (map (\<lambda>j. env ! j) js),
           q + sum_list (map (\<lambda>j. env ! j * env ! j) js),
           c + int (length js))"
  by (induction js arbitrary: s q c) (simp_all add: algebra_simps)

lemma threshold_at_spec:
  "threshold_at env factor i = Some (spec_threshold env factor i)"
proof -
  let ?lo = "if i > 30 div 2 then i - 30 div 2 else 0"
  let ?hi = "if i + 30 div 2 < length env then i + 30 div 2 else length env"
  have w: "[?lo..<?hi] = window_of env i"
    by (auto simp: window_of_def min_def)
  have "\<forall>j\<in>set (window_of env i). j < length env"
    by (auto simp: window_of_def)
  from stats_loop_sum [OF this, of 0 0 0] show ?thesis
    unfolding threshold_at_def Let_def w spec_threshold_def
    by (simp add: power2_eq_square)
qed

lemma threshold_loop_fold:
  "\<forall>i\<in>set idxs. i < length th \<Longrightarrow>
   threshold_loop env factor idxs th =
     Some (fold (\<lambda>i th. th[i := spec_threshold env factor i]) idxs th)"
  by (induction idxs arbitrary: th) (simp_all add: threshold_at_spec)

lemma fold_update_length:
  "length (fold (\<lambda>i th. th[i := g i]) idxs th) = length th"
  by (induction idxs arbitrary: th) simp_all

lemma fold_update_nth:
  "k < length th \<Longrightarrow>
   fold (\<lambda>i th. th[i := g i]) idxs th ! k = (if k \<in> set idxs then g k else th ! k)"
  by (induction idxs arbitrary: th) (auto simp: nth_list_update)

lemma threshold_loop_all:
  "\<exists>th. threshold_loop env factor [0..<length env] (replicate (length env) 0) = Some th \<and>
        length th = length env \<and> (\<forall>k<length env. th ! k = spec_threshold env factor k)"
proof -
  let ?th = "fold (\<lambda>i th. th[i := spec_threshold env factor i]) [0..<length env]
               (replicate (length env) 0)"
  have "threshold_loop env factor [0..<length env] (replicate (length env) 0) = Some ?th"
    by (rule threshold_loop_fold) simp
  moreover have "length ?th = length env" by (simp add: fold_update_length)
  moreover have "\<forall>k<length env. ?th ! k = spec_threshold env factor k"
    by (simp add: fold_update_nth)
  ultimately show ?thesis by blast
qed

lemma neighbour_scan_in_bounds:
  "i < length env \<Longrightarrow> neighbour_scan env i js \<noteq> None"
proof (induction js)
  case Nil
  show ?case by simp
next
  case (Cons j js)
  have "0 \<le> cast_int i + j \<and> cast_int i + j < cast_int (length env) \<Longrightarrow>
        nat (cast_int i + j) < length env"
    using cast_int_le [of "length env"] by linarith
  with Cons show ?case by (auto simp: Let_def)
qed

lemma peak_loop_in_bounds:
  "bound \<le> length env \<Longrightarrow> length th = length env \<Longrightarrow>
   peak_loop env th bound i peaks \<noteq> None"
proof (induction "bound - i" arbitrary: i peaks rule: less_induct)
  case less
  show ?case
  proof (cases "i < bound")
    case False
    then show ?thesis by (subst peak_loop.simps) simp
  next
    case True
    then have i: "i < length env" "i < length th" using less.prems by simp_all
    have d: "bound - (i + 1) < bound - i" using True by simp
    from neighbour_scan_in_bounds [OF i(1), of "[-9..9]"]
    obtain isPeak where n: "neighbour_scan env i [-9..9] = Some isPeak" by blast
    show ?thesis
      using True i n less.hyps [OF d less.prems]
      by (subst peak_loop.simps) simp
  qed
qed

text \<open>
  Claim C10. On an envelope of at least nine frames every read of \<open>onsetFunction\<close>
  and of \<open>threshold\<close> in \<open>findBeats\<close> is inside the vector, so the function returns
  a list. The bound is needed: below nine frames \<^verbatim>\<open>length - windowSize\<close> wraps
  around and the first pass of the peak loop reads \<open>onsetFunction[9]\<close>.
\<close>

theorem findBeats_in_bounds:
  "(9 \<le> length onsetFunction \<longrightarrow> findBeats onsetFunction thresholdFactor \<noteq> None) \<and>
   (length onsetFunction < 9 \<longrightarrow> findBeats onsetFunction thresholdFactor = None)"
proof (intro conjI impI)
  assume a: "9 \<le> length onsetFunction"
  from threshold_loop_all [of onsetFunction thresholdFactor] obtain th where
    th: "threshold_loop onsetFunction thresholdFactor [0..<length onsetFunction]
           (replicate (length onsetFunction) 0) = Some th" "length th = length onsetFunction"
    by blast
  have "size_sub (length onsetFunction) 9 \<le> length onsetFunction"
    using size_sub_le [OF a] by simp
  from peak_loop_in_bounds [OF this th(2)] th(1)
  show "findBeats onsetFunction thresholdFactor \<noteq> None"
    by (simp add: findBeats_def Let_def)
next
  assume a: "length onsetFunction < 9"
  from threshold_loop_all [of onsetFunction thresholdFactor] obtain th where
    th: "threshold_loop onsetFunction thresholdFactor [0..<length onsetFunction]
           (replicate (length onsetFunction) 0) = Some th"
    by blast
  have "size_sub (length onsetFunction) 9 = 2 ^ 64 + length onsetFunction - 9"
    using a by (intro size_sub_wrap) simp_all
  then have "9 < size_sub (length onsetFunction) 9" by simp
  then have "peak_loop onsetFunction th (size_sub (length onsetFunction) 9) 9 [] = None"
    using a by (subst peak_loop.simps) simp
  with th show "findBeats onsetFunction thresholdFactor = None"
    by (simp add: findBeats_def Let_def)
qed

text \<open>An envelope of twenty frames and one of a single frame.\<close>

theorem findBeats_in_bounds_witness:
  "findBeats (replicate 20 0) (13 / 10) \<noteq> None \<and> findBeats [1 / 2, 1 / 4] (13 / 10) = None"
  using findBeats_in_bounds [of "replicate 20 0" "13 / 10"]
    findBeats_in_bounds [of "[1 / 2, 1 / 4]" "13 / 10"]
  by simp

subsection \<open>findBeats: the beats it returns\<close>

lemma neighbour_scan_spec:
  assumes "9 \<le> i" "i + 9 < length env" "length env < 2 ^ 31"
  shows "set js \<subseteq> {-9..9} \<Longrightarrow>
         neighbour_scan env i js =
           Some (\<forall>j\<in>set js. j \<noteq> 0 \<longrightarrow> \<not> env ! i < env ! nat (int i + j))"
proof (induction js)
  case Nil
  show ?case by simp
next
  case (Cons j js)
  have ci: "cast_int i = int i" using assms by (intro cast_int_id) simp
  have cl: "cast_int (length env) = int (length env)" using assms by (intro cast_int_id) simp
  have j: "-9 \<le> j" "j \<le> 9" using Cons.prems by simp_all
  then have r: "0 \<le> int i + j" "int i + j < int (length env)" "nat (int i + j) < length env"
    using assms by linarith+
  have i: "i < length env" using assms by simp
  have IH: "neighbour_scan env i js =
           Some (\<forall>j\<in>set js. j \<noteq> 0 \<longrightarrow> \<not> env ! i < env ! nat (int i + j))"
    using Cons by simp
  show ?case
    using r i by (auto simp: Let_def ci cl IH)
qed

lemma local_max_shift:
  assumes "9 \<le> i"
  shows "(\<forall>j\<in>set [-9..9]. j \<noteq> 0 \<longrightarrow> \<not> env ! i < env ! nat (int i + j)) \<longleftrightarrow>
         (\<forall>k. i - 9 \<le> k \<and> k \<le> i + 9 \<and> k \<noteq> i \<longrightarrow> \<not> (env ! i :: real) < env ! k)"
proof
  assume L: "\<forall>j\<in>set [-9..9]. j \<noteq> 0 \<longrightarrow> \<not> env ! i < env ! nat (int i + j)"
  show "\<forall>k. i - 9 \<le> k \<and> k \<le> i + 9 \<and> k \<noteq> i \<longrightarrow> \<not> env ! i < env ! k"
  proof (intro allI impI)
    fix k assume k: "i - 9 \<le> k \<and> k \<le> i + 9 \<and> k \<noteq> i"
    let ?j = "int k - int i"
    have "?j \<in> set [-9..9]" "?j \<noteq> 0" using k assms by auto
    with L have "\<not> env ! i < env ! nat (int i + ?j)" by blast
    then show "\<not> env ! i < env ! k" by simp
  qed
next
  assume R: "\<forall>k. i - 9 \<le> k \<and> k \<le> i + 9 \<and> k \<noteq> i \<longrightarrow> \<not> env ! i < env ! k"
  show "\<forall>j\<in>set [-9..9]. j \<noteq> 0 \<longrightarrow> \<not> env ! i < env ! nat (int i + j)"
  proof (intro ballI impI)
    fix j :: int assume j: "j \<in> set [-9..9]" "j \<noteq> 0"
    let ?k = "nat (int i + j)"
    have "i - 9 \<le> ?k \<and> ?k \<le> i + 9 \<and> ?k \<noteq> i" using j assms by auto
    with R show "\<not> env ! i < env ! ?k" by blast
  qed
qed

lemma peak_loop_spec:
  assumes "length env < 2 ^ 31" "length th = length env" "bound + 9 \<le> length env"
    and "\<forall>k<length env. th ! k = spec_threshold env factor k"
  shows "9 \<le> i \<Longrightarrow>
         peak_loop env th bound i peaks = Some (peaks @ filter (is_beat env factor) [i..<bound])"
proof (induction "bound - i" arbitrary: i peaks rule: less_induct)
  case less
  show ?case
  proof (cases "i < bound")
    case False
    then show ?thesis by (subst peak_loop.simps) simp
  next
    case True
    then have i: "i < length env" "i < length th" "i + 9 < length env" using assms by simp_all
    have d: "bound - (i + 1) < bound - i" using True by simp
    have n: "neighbour_scan env i [-9..9] =
          Some (\<forall>k. i - 9 \<le> k \<and> k \<le> i + 9 \<and> k \<noteq> i \<longrightarrow> \<not> env ! i < env ! k)"
      using neighbour_scan_spec [OF less.prems i(3) assms(1), of "[-9..9]"]
        local_max_shift [OF less.prems, of env] by simp
    have t: "th ! i = spec_threshold env factor i" using assms(4) i by simp
    have u: "[i..<bound] = i # [i + 1..<bound]" using True by (simp add: upt_conv_Cons)
    have IH: "\<And>ps. peak_loop env th bound (i + 1) ps
                 = Some (ps @ filter (is_beat env factor) [i + 1..<bound])"
      using less.hyps [OF d] less.prems by simp
    have step: "peak_loop env th bound i peaks =
        (if env ! i \<le> th ! i then peak_loop env th bound (i + 1) peaks
         else peak_loop env th bound (i + 1)
                (if (\<forall>k. i - 9 \<le> k \<and> k \<le> i + 9 \<and> k \<noteq> i \<longrightarrow> \<not> env ! i < env ! k)
                 then peaks @ [i] else peaks))"
      by (subst peak_loop.simps)
         (simp only: True if_True nth_opt_Some [OF i(1)] nth_opt_Some [OF i(2)] option.case n)
    show ?thesis
      unfolding step IH u using t by (auto simp: is_beat_def)
  qed
qed

text \<open>
  From nine frames on (and below \<open>2^31\<close> frames, where the casts to \<^verbatim>\<open>int\<close> are exact)
  \<open>findBeats\<close> returns, in ascending order, exactly the frames of \<open>[9, length - 9)\<close>
  that are beats.
\<close>

lemma findBeats_characterisation:
  assumes "9 \<le> length env" "length env < 2 ^ 31"
  shows "findBeats env factor = Some (filter (is_beat env factor) [9..<length env - 9])"
proof -
  from threshold_loop_all [of env factor] obtain th where
    th: "threshold_loop env factor [0..<length env] (replicate (length env) 0) = Some th"
      "length th = length env" "\<forall>k<length env. th ! k = spec_threshold env factor k"
    by blast
  have b: "size_sub (length env) 9 = length env - 9"
    using assms by (intro size_sub_no_wrap) simp_all
  have "peak_loop env th (length env - 9) 9 [] =
          Some ([] @ filter (is_beat env factor) [9..<length env - 9])"
    using assms by (intro peak_loop_spec [OF assms(2) th(2) _ th(3)]) simp_all
  with th(1) b show ?thesis by (simp add: findBeats_def Let_def)
qed

lemma findBeats_ascending:
  assumes "9 \<le> length env" "length env < 2 ^ 31"
  shows "\<exists>peaks. findBeats env factor = Some peaks \<and> sorted_wrt (<) peaks \<and>
           set peaks = {i. 9 \<le> i \<and> i + 9 < length env \<and> is_beat env factor i}"
  using findBeats_characterisation [OF assms, of factor]
  by (auto simp: sorted_wrt_filter)

text \<open>
  On the example envelope, with the factor 0, the only beat is the burst: the
  threshold is the mean \<open>1/21\<close> at each of the candidate frames 9, 10 and 11.
\<close>

lemma window_of_whole:
  "i \<le> 15 \<Longrightarrow> length env \<le> i + 15 \<Longrightarrow> window_of env i = [0..<length env]"
  by (simp add: window_of_def min_def)

lemma example_threshold:
  assumes "6 \<le> i" "i \<le> 15"
  shows "spec_threshold example_envelope 0 i = 1 / 21"
proof -
  have l: "length example_envelope = 21" by (simp add: example_envelope_def)
  have w: "window_of example_envelope i = [0..<length example_envelope]"
    using assms by (intro window_of_whole) (simp_all add: l)
  have "map (\<lambda>j. example_envelope ! j) [0..<length example_envelope] = example_envelope"
    by (rule map_nth)
  then have "sum_list (map (\<lambda>j. example_envelope ! j) [0..<length example_envelope]) = 1"
    by (simp add: example_envelope_def)
  then show ?thesis
    unfolding spec_threshold_def Let_def w by (simp add: l)
qed

lemma example_envelope_beats: "findBeats example_envelope 0 = Some [10]"
proof -
  have l: "length example_envelope = 21" by (simp add: example_envelope_def)
  have u: "[9..<length example_envelope - 9] = [9, 10, 11]"
    unfolding l by (simp add: upt_rec)
  have b9: "\<not> is_beat example_envelope 0 9"
    by (simp add: is_beat_def example_threshold) (simp add: example_envelope_def)
  have b11: "\<not> is_beat example_envelope 0 11"
    by (simp add: is_beat_def example_threshold) (simp add: example_envelope_def)
  have "\<forall>x\<in>set example_envelope. x \<le> 1" by (simp add: example_envelope_def)
  then have "\<forall>j. j < length example_envelope \<longrightarrow> example_envelope ! j \<le> 1"
    by simp
  then have "\<forall>j. 10 - 9 \<le> j \<and> j \<le> 10 + 9 \<and> j \<noteq> 10 \<longrightarrow> \<not> 1 < example_envelope ! j"
    unfolding l by (simp add: not_less)
  moreover have "example_envelope ! 10 = 1" by (simp add: example_envelope_def)
  ultimately have b10: "is_beat example_envelope 0 10"
    by (simp add: is_beat_def example_threshold)
  have "findBeats example_envelope 0
        = Some (filter (is_beat example_envelope 0) [9..<length example_envelope - 9])"
    by (rule findBeats_characterisation) (simp_all add: l)
  then show ?thesis unfolding u using b9 b10 b11 by simp
qed

text \<open>
  Claim C7 states this for every envelope. For an envelope of fewer than nine frames
  the claim's range \<open>[9, length - 9)\<close> is empty, so the claim has \<open>findBeats\<close> return
  the empty list; the function reads outside the envelope instead. One frame is what
  \<open>detectOnsets\<close> returns for an input of 1024 samples.
\<close>

theorem findBeats_short_envelope: "findBeats [1 / 2] (13 / 10) = None"
proof -
  have "size_sub (length [1 / 2 :: real]) 9 = 2 ^ 64 + 1 - 9"
    by (simp add: size_sub_def)
  then have "peak_loop [1 / 2] th (size_sub (length [1 / 2 :: real]) 9) 9 [] = None" for th
    by (subst peak_loop.simps) simp
  then show ?thesis
    by (simp add: findBeats_def Let_def split: option.split)
qed

subsection \<open>estimateTempo: the refinement of the winning bucket\<close>

lemma example_intervals_eq: "collect_intervals 100 (map (beatTime 100 1) example_beats) = example_intervals"
  by (simp add: example_beats_def beatTime_def Let_def example_intervals_def)

lemma upt8: "[0..<8] = [0, 1, 2, 3, 4, 5, 6, 7]"
  by (simp add: upt_rec)

lemma example_hist_eq: "fold (vote_interval example_intervals) [0..<length example_intervals] [] = example_hist"
proof -
  have l: "length example_intervals = 8" by (simp add: example_intervals_def)
  show ?thesis
    unfolding l upt8
    by (simp add: example_intervals_def vote_interval_def cast_vote_def hist_add_def trunc_def example_hist_def)
qed

lemma example_best: "find_best example_hist (0, 0) = (118, 47 / 16)"
  by (simp add: example_hist_def)

lemma example_refine: "refine_scan example_hist 118 (47 / 16) [-3..3] = 118"
  by (simp add: example_hist_def trunc_def upto_rec1)

text \<open>
  Claim C8 has the refinement average the winner with the first neighbouring bucket, at
  an offset from -3 to +3, whose weight exceeds 0.92 of the maximum. The loop does not
  skip the offset 0: there the bucket is the winner itself, its weight exceeds 0.92 of
  itself, the average of the key with itself is the key, and the loop stops. A strong
  bucket above the winner is never looked at. On the example input the winner is the
  key 118 (weight 2.9375) and the key 121 has the weight 2.8125, more than 0.92 of the
  maximum; the function returns 118, where the average of the two keys is 119.
\<close>

theorem estimateTempo_upper_neighbour_ignored:
  "estimateTempo (\<lambda>h. h) [0, 99, 198, 299, 400, 501, 600, 701, 800] 100 1 = 118"
proof -
  have "estimateTempo (\<lambda>h. h) example_beats 100 1 = 118"
    unfolding estimateTempo_def Let_def example_intervals_eq example_hist_eq example_best prod.case example_refine
    by (simp add: example_beats_def example_intervals_def trunc_def cround_def)
  then show ?thesis by (simp only: example_beats_def)
qed

text \<open>
  The same holds in general. The winner is a bucket of the histogram with a positive
  weight, whatever the traversal order; so the scan always stops at the offset 0 at the
  latest, and the offsets 1, 2 and 3 are never reached.
\<close>

lemma find_best_keeps:
  "\<forall>e\<in>set es. snd e \<le> m \<Longrightarrow> find_best es (k, m) = (k, m)"
  by (induction es) auto

lemma find_best_unique_max:
  "(k, m) \<in> set es \<Longrightarrow> a < m \<Longrightarrow> \<forall>e\<in>set es. e = (k, m) \<or> snd e < m \<Longrightarrow>
   find_best es (b, a) = (k, m)"
proof (induction es arbitrary: b a)
  case Nil
  then show ?case by simp
next
  case (Cons e es)
  obtain k1 m1 where e: "e = (k1, m1)" by (cases e)
  show ?case
  proof (cases "e = (k, m)")
    case True
    have "\<forall>e\<in>set es. snd e \<le> m" using Cons.prems(3) by fastforce
    then have "find_best es (k, m) = (k, m)" by (rule find_best_keeps)
    with True e Cons.prems(2) show ?thesis by simp
  next
    case False
    then have in_rest: "(k, m) \<in> set es" and lt: "m1 < m"
      using Cons.prems e by auto
    have rest: "\<forall>e\<in>set es. e = (k, m) \<or> snd e < m" using Cons.prems(3) by simp
    show ?thesis
    proof (cases "a < m1")
      case True
      then show ?thesis using e Cons.IH [OF in_rest lt rest, of k1] by simp
    next
      case False
      then show ?thesis using e Cons.IH [OF in_rest Cons.prems(2) rest, of b] by simp
    qed
  qed
qed

lemma refine_scan_self:
  assumes "map_of hist bestBPMKey = Some maxScore" "0 < maxScore"
  shows "refine_scan hist bestBPMKey maxScore (0 # rest) = bestBPMKey"
proof -
  have "(of_int bestBPMKey * maxScore + of_int bestBPMKey * maxScore) / (maxScore + maxScore)
        = (of_int bestBPMKey :: real)"
    using assms(2) by (simp add: field_simps)
  moreover have "trunc (of_int bestBPMKey) = bestBPMKey"
    by (simp add: trunc_def)
  moreover have "0.92 * maxScore < maxScore" using assms(2) by simp
  ultimately show ?thesis using assms(1) by (simp add: Let_def)
qed

lemma refine_scan_stops_at_self:
  assumes "map_of hist bestBPMKey = Some maxScore" "0 < maxScore"
  shows "refine_scan hist bestBPMKey maxScore (before @ 0 # rest)
         = refine_scan hist bestBPMKey maxScore (before @ [0])"
proof (induction before)
  case Nil
  show ?case using refine_scan_self [OF assms] by simp
next
  case (Cons offset before)
  then show ?case by (simp add: Let_def split: option.split)
qed

lemma upto_m3_3: "[-3..3] = [-3, -2, -1] @ 0 # [1, 2, 3 :: int]"
  by (simp add: upto_rec1)

lemma refine_scan_upper_offsets_dead:
  assumes "map_of hist bestBPMKey = Some maxScore" "0 < maxScore"
  shows "refine_scan hist bestBPMKey maxScore [-3..3]
         = refine_scan hist bestBPMKey maxScore [-3, -2, -1, 0]"
  unfolding upto_m3_3 using refine_scan_stops_at_self [OF assms, of "[-3, -2, -1]" "[1, 2, 3]"]
  by simp

text \<open>
  What the claim describes, a scan of the neighbours only, gives the key 119 on the
  example histogram, that is 119 beats per minute.
\<close>

lemma refine_neighbours_only:
  "refine_scan example_hist 118 (47 / 16) [-3, -2, -1, 1, 2, 3] = 119"
  by (simp add: example_hist_def trunc_def)

text \<open>The result on the example does not depend on the traversal order.\<close>

lemma estimateTempo_example_any_order:
  assumes "set (traversal example_hist) = set example_hist"
  shows "estimateTempo traversal example_beats 100 1 = 118"
proof -
  have b: "find_best (traversal example_hist) (0, 0) = (118, 47 / 16)"
    by (rule find_best_unique_max) (simp_all add: assms, simp_all add: example_hist_def)
  show ?thesis
    unfolding estimateTempo_def Let_def example_intervals_eq example_hist_eq b prod.case example_refine
    by (simp add: example_beats_def example_intervals_def trunc_def cround_def)
qed

lemma hist_add_ok:
  assumes "hist_ok hist" "0 < w"
  shows "hist_ok (hist_add k w hist) \<and> hist_add k w hist \<noteq> []"
proof (cases "map_of hist k")
  case None
  then have "k \<notin> fst ` set hist" by (simp add: map_of_eq_None_iff)
  with assms None show ?thesis by (auto simp: hist_ok_def hist_add_def)
next
  case (Some v)
  then have ne: "hist \<noteq> []" by auto
  let ?f = "\<lambda>(k', u). if k' = k then (k', u + w) else (k', u)"
  have m: "map fst (map ?f hist) = map fst hist" by (induction hist) auto
  have d: "distinct (map fst (map ?f hist))"
    using assms(1) unfolding m by (simp add: hist_ok_def)
  have p: "\<forall>e\<in>set (map ?f hist). 0 < snd e"
  proof
    fix e assume "e \<in> set (map ?f hist)"
    then obtain k' u where "(k', u) \<in> set hist" "e = ?f (k', u)" by auto
    moreover from this assms(1) have "0 < u" by (auto simp: hist_ok_def)
    ultimately show "0 < snd e" using assms(2) by (simp split: if_splits)
  qed
  have n: "map ?f hist \<noteq> []" using ne by simp
  have "hist_add k w hist = map ?f hist" using Some by (simp add: hist_add_def)
  with d p n show ?thesis unfolding hist_ok_def by metis
qed

lemma cast_vote_ok:
  "hist_ok hist \<Longrightarrow> 0 < weight \<Longrightarrow> 0 < snd tempo \<Longrightarrow> hist_ok (cast_vote weight tempo hist)"
  by (simp add: cast_vote_def hist_add_ok)

lemma cast_vote_nonempty:
  "hist \<noteq> [] \<Longrightarrow> hist_ok hist \<Longrightarrow> 0 < weight \<Longrightarrow> 0 < snd tempo \<Longrightarrow>
   cast_vote weight tempo hist \<noteq> []"
  by (simp add: cast_vote_def hist_add_ok)

lemma cast_vote_in_band:
  "hist_ok hist \<Longrightarrow> 0 < weight \<Longrightarrow> 0 < snd tempo \<Longrightarrow> 50 \<le> fst tempo \<Longrightarrow> fst tempo \<le> 220 \<Longrightarrow>
   cast_vote weight tempo hist \<noteq> []"
  by (simp add: cast_vote_def hist_add_ok)

lemma vote_interval_ok:
  assumes "hist_ok hist" "i < length intervals"
    and "0.2 \<le> intervals ! i" "intervals ! i \<le> 2"
  shows "hist_ok (vote_interval intervals i hist) \<and> vote_interval intervals i hist \<noteq> []"
proof -
  define weight where "weight = 0.5 + 0.5 * (real i / real (length intervals))"
  define p where "p = 60 / intervals ! i"
  have w: "0 < weight" by (simp add: weight_def add_pos_nonneg)
  have p: "30 \<le> p" "p \<le> 300" using assms(3,4) by (simp_all add: p_def field_simps)
  define h1 where "h1 = cast_vote weight (p, 1) hist"
  define h2 where "h2 = cast_vote weight (p * 2, 0.9) h1"
  define h3 where "h3 = cast_vote weight (p / 2, 0.8) h2"
  define h4 where "h4 = cast_vote weight (p * 3, 0.5) h3"
  define h5 where "h5 = cast_vote weight (p / 3, 0.5) h4"
  have ok1: "hist_ok h1" unfolding h1_def using assms(1) w by (intro cast_vote_ok) simp_all
  have ok2: "hist_ok h2" unfolding h2_def using ok1 w by (intro cast_vote_ok) simp_all
  have ok3: "hist_ok h3" unfolding h3_def using ok2 w by (intro cast_vote_ok) simp_all
  have ok4: "hist_ok h4" unfolding h4_def using ok3 w by (intro cast_vote_ok) simp_all
  have ok5: "hist_ok h5" unfolding h5_def using ok4 w by (intro cast_vote_ok) simp_all
  have ne3: "h3 \<noteq> []"
  proof (cases "50 \<le> p \<and> p \<le> 220")
    case True
    then have "h1 \<noteq> []" unfolding h1_def using assms(1) w by (intro cast_vote_in_band) simp_all
    then have "h2 \<noteq> []" unfolding h2_def using ok1 w by (intro cast_vote_nonempty) simp_all
    then show ?thesis unfolding h3_def using ok2 w by (intro cast_vote_nonempty) simp_all
  next
    case False
    show ?thesis
    proof (cases "p < 50")
      case True
      then have "h2 \<noteq> []" unfolding h2_def using ok1 w p
        by (intro cast_vote_in_band) simp_all
      then show ?thesis unfolding h3_def using ok2 w by (intro cast_vote_nonempty) simp_all
    next
      case False
      with \<open>\<not> (50 \<le> p \<and> p \<le> 220)\<close> have "220 < p" by simp
      then show ?thesis unfolding h3_def using ok2 w p
        by (intro cast_vote_in_band) simp_all
    qed
  qed
  then have "h4 \<noteq> []" unfolding h4_def using ok3 w by (intro cast_vote_nonempty) simp_all
  then have ne5: "h5 \<noteq> []" unfolding h5_def using ok4 w by (intro cast_vote_nonempty) simp_all
  have "vote_interval intervals i hist = h5"
    by (simp add: vote_interval_def Let_def h5_def h4_def h3_def h2_def h1_def weight_def p_def)
  with ok5 ne5 show ?thesis by simp
qed

lemma fold_vote_interval_ok:
  assumes "\<forall>x\<in>set intervals. 0.2 \<le> x \<and> x \<le> 2"
  shows "hist_ok hist \<Longrightarrow> set idxs \<subseteq> {..<length intervals} \<Longrightarrow>
         hist_ok (fold (vote_interval intervals) idxs hist) \<and>
         (idxs \<noteq> [] \<longrightarrow> fold (vote_interval intervals) idxs hist \<noteq> [])"
proof (induction idxs arbitrary: hist rule: rev_induct)
  case Nil
  then show ?case by simp
next
  case (snoc i idxs)
  then have i: "i < length intervals" by simp
  then have r: "0.2 \<le> intervals ! i" "intervals ! i \<le> 2" using assms by simp_all
  have "hist_ok (fold (vote_interval intervals) idxs hist)" using snoc by simp
  from vote_interval_ok [OF this i r] show ?case by simp
qed

lemma collect_intervals_range:
  "\<forall>x\<in>set (collect_intervals sampleRate ts). 0.2 \<le> x \<and> x \<le> 2"
  by (induction sampleRate ts rule: collect_intervals.induct) (auto simp: Let_def)

lemma find_best_member: "find_best es acc = acc \<or> find_best es acc \<in> set es"
  by (induction es acc rule: find_best.induct) auto

lemma find_best_ge_acc: "snd acc \<le> snd (find_best es acc)"
proof (induction es acc rule: find_best.induct)
  case (1 acc)
  show ?case by simp
next
  case (2 k v rest bestBPMKey maxScore)
  then show ?case by (cases "maxScore < v") auto
qed

lemma find_best_ge_all: "e \<in> set es \<Longrightarrow> snd e \<le> snd (find_best es acc)"
proof (induction es acc rule: find_best.induct)
  case (1 acc)
  then show ?case by simp
next
  case (2 k v rest bestBPMKey maxScore)
  show ?case
  proof (cases "maxScore < v")
    case True
    have "v \<le> snd (find_best rest (k, v))" using find_best_ge_acc [of "(k, v)" rest] by simp
    with 2 True show ?thesis by auto
  next
    case False
    have "maxScore \<le> snd (find_best rest (bestBPMKey, maxScore))"
      using find_best_ge_acc [of "(bestBPMKey, maxScore)" rest] by simp
    with 2 False show ?thesis by auto
  qed
qed

lemma winner_is_bucket:
  assumes "hist_ok hist" "hist \<noteq> []" "set (traversal hist) = set hist"
    and "find_best (traversal hist) (0, 0) = (bestBPMKey, maxScore)"
  shows "map_of hist bestBPMKey = Some maxScore \<and> 0 < maxScore"
proof -
  obtain e where e: "e \<in> set hist" using assms(2) by (cases hist) auto
  then have "0 < snd e" using assms(1) by (simp add: hist_ok_def)
  moreover have "snd e \<le> snd (find_best (traversal hist) (0, 0))"
    using e assms(3) by (intro find_best_ge_all) simp
  ultimately have pos: "0 < maxScore" using assms(4) by simp
  then have "find_best (traversal hist) (0, 0) \<noteq> (0, 0)" using assms(4) by simp
  with find_best_member [of "traversal hist" "(0, 0)"] assms(3,4)
  have "(bestBPMKey, maxScore) \<in> set hist" by auto
  then have "map_of hist bestBPMKey = Some maxScore"
    using assms(1) by (simp add: hist_ok_def)
  with pos show ?thesis by simp
qed

lemma estimateTempo_upper_offsets_dead:
  assumes "intervals = collect_intervals sampleRate (map (beatTime sampleRate hopSize) beats)"
    and "intervals \<noteq> []"
    and "tempoHistogram = fold (vote_interval intervals) [0..<length intervals] []"
    and "set (traversal tempoHistogram) = set tempoHistogram"
    and "find_best (traversal tempoHistogram) (0, 0) = (bestBPMKey, maxScore)"
  shows "refine_scan tempoHistogram bestBPMKey maxScore [-3..3]
         = refine_scan tempoHistogram bestBPMKey maxScore [-3, -2, -1, 0]"
proof -
  have r: "\<forall>x\<in>set intervals. 0.2 \<le> x \<and> x \<le> 2"
    unfolding assms(1) by (rule collect_intervals_range)
  have "hist_ok []" by (simp add: hist_ok_def)
  have s: "set [0..<length intervals] \<subseteq> {..<length intervals}" by auto
  have n: "[0..<length intervals] \<noteq> []" using assms(2) by simp
  from fold_vote_interval_ok [OF r \<open>hist_ok []\<close> s] n assms(3)
  have "hist_ok tempoHistogram" "tempoHistogram \<noteq> []" by simp_all
  then have "map_of tempoHistogram bestBPMKey = Some maxScore \<and> 0 < maxScore"
    using assms(4,5) by (intro winner_is_bucket [where traversal = traversal])
  then show ?thesis by (intro refine_scan_upper_offsets_dead) simp_all
qed

end
